theory Spec2Isabelle
  imports Main
begin

section \<open>The tiled matrix-multiplication step simulator\<close>

text \<open>
  A shallow embedding of the tiled GEMM visualiser \<^verbatim>\<open>TiledMatmulGeminiDemo\<close>
  (\<^verbatim>\<open>src/components/post\<close>). The simulator computes on integers held in JavaScript
  numbers, which are IEEE-754 doubles. Matrix entries, sums and tile bounds are modelled
  as integer-valued doubles: an arithmetic result is the exact integer result rounded to
  the nearest double, ties to even, and the values \<^verbatim>\<open>NaN\<close> and
  \<^verbatim>\<open>\<plusminus>Infinity\<close> are kept. Loop counters and step indices stay far below
  \<open>2 ^ 53\<close>, where doubles are exact, and are plain integers.
\<close>

subsection \<open>Integer division and remainder\<close>

text \<open>\<^verbatim>\<open>Math.ceil(a / b)\<close> on integers, for a positive divisor.\<close>

definition ceil_div :: "int \<Rightarrow> int \<Rightarrow> int" where
  "ceil_div a b = - ((- a) div b)"

text \<open>The remainder operator \<^verbatim>\<open>a % b\<close>: the result takes the sign of the dividend.\<close>

definition js_rem :: "int \<Rightarrow> int \<Rightarrow> int" where
  "js_rem a b = sgn a * (\<bar>a\<bar> mod \<bar>b\<bar>)"

text \<open>\<^verbatim>\<open>Math.floor(a / b)\<close> on integers.\<close>

definition floor_div :: "int \<Rightarrow> int \<Rightarrow> int" where
  "floor_div a b = a div b"

subsection \<open>Doubles with integer values\<close>

text \<open>
  A number is an integer that a double represents exactly, \<^verbatim>\<open>NaN\<close>, or an infinity.
  Negative zero is identified with zero: the simulator never divides, so the two are
  not told apart.
\<close>

datatype jsnum = Num int | NaN | PosInf | NegInf

text \<open>The number of binary digits of a positive integer; 0 for the others.\<close>

function bit_length :: "int \<Rightarrow> nat" where
  "bit_length n = (if n \<le> 0 then 0 else Suc (bit_length (n div 2)))"
  by pat_completeness auto
termination
  by (relation "measure nat") auto

declare bit_length.simps [simp del]

text \<open>
  Rounding a magnitude to 53 significant binary digits, to nearest and ties to even:
  with \<open>e\<close> the number of digits beyond 53, the magnitude is \<open>q * 2 ^ e + r\<close> and
  is rounded to \<open>q * 2 ^ e\<close> or \<open>(q + 1) * 2 ^ e\<close>.
\<close>

definition round_mag :: "int \<Rightarrow> int" where
  "round_mag m =
     (let e = bit_length m - 53;
          q = m div 2 ^ e;
          r = m mod 2 ^ e
      in if 2 * r < 2 ^ e \<or> (2 * r = 2 ^ e \<and> even q) then q * 2 ^ e else (q + 1) * 2 ^ e)"

text \<open>
  The double nearest to an integer. A rounded magnitude of more than 1024 binary digits,
  that is of \<open>2 ^ 1024\<close> or more, overflows to an infinity.
\<close>

definition round_double :: "int \<Rightarrow> jsnum" where
  "round_double x =
     (let m = round_mag \<bar>x\<bar>
      in if 1024 < bit_length m then (if x < 0 then NegInf else PosInf) else Num (sgn x * m))"

text \<open>An integer is a JavaScript number when rounding leaves it as it is.\<close>

definition is_double :: "int \<Rightarrow> bool" where
  "is_double x \<longleftrightarrow> round_double x = Num x"

fun jsadd :: "jsnum \<Rightarrow> jsnum \<Rightarrow> jsnum" where
  "jsadd (Num a) (Num b) = round_double (a + b)"
| "jsadd NaN _ = NaN"
| "jsadd _ NaN = NaN"
| "jsadd PosInf NegInf = NaN"
| "jsadd NegInf PosInf = NaN"
| "jsadd PosInf _ = PosInf"
| "jsadd _ PosInf = PosInf"
| "jsadd NegInf _ = NegInf"
| "jsadd _ NegInf = NegInf"

fun jsneg :: "jsnum \<Rightarrow> jsnum" where
  "jsneg (Num a) = Num (- a)"
| "jsneg NaN = NaN"
| "jsneg PosInf = NegInf"
| "jsneg NegInf = PosInf"

text \<open>Subtraction is addition of the negated operand, with the same single rounding.\<close>

definition jssub :: "jsnum \<Rightarrow> jsnum \<Rightarrow> jsnum" where
  "jssub a b = jsadd a (jsneg b)"

fun jsmul :: "jsnum \<Rightarrow> jsnum \<Rightarrow> jsnum" where
  "jsmul (Num a) (Num b) = round_double (a * b)"
| "jsmul NaN _ = NaN"
| "jsmul _ NaN = NaN"
| "jsmul (Num a) PosInf = (if a = 0 then NaN else if a < 0 then NegInf else PosInf)"
| "jsmul (Num a) NegInf = (if a = 0 then NaN else if a < 0 then PosInf else NegInf)"
| "jsmul PosInf (Num b) = (if b = 0 then NaN else if b < 0 then NegInf else PosInf)"
| "jsmul NegInf (Num b) = (if b = 0 then NaN else if b < 0 then PosInf else NegInf)"
| "jsmul PosInf PosInf = PosInf"
| "jsmul PosInf NegInf = NegInf"
| "jsmul NegInf PosInf = NegInf"
| "jsmul NegInf NegInf = PosInf"

text \<open>\<^verbatim>\<open>Math.min(a, b)\<close>.\<close>

fun jsmin :: "jsnum \<Rightarrow> jsnum \<Rightarrow> jsnum" where
  "jsmin (Num a) (Num b) = Num (min a b)"
| "jsmin NaN _ = NaN"
| "jsmin _ NaN = NaN"
| "jsmin NegInf _ = NegInf"
| "jsmin _ NegInf = NegInf"
| "jsmin PosInf b = b"
| "jsmin a PosInf = a"

subsection \<open>Arrays and errors\<close>

text \<open>
  \<open>TypeError\<close> is the one exception the simulator can throw. \<open>InvalidArgument\<close> is the
  failure of the tile-range contract, which only \<open>tileRange_spec\<close> produces.
  \<open>UnsafeRange\<close> is not a JavaScript error: it stands for a loop over a tile range with
  a bound that is not a finite number of magnitude below \<open>2 ^ 53\<close>, which a counter
  stepping by one does not count through and which the loops below do not follow.
  The materializer never gets there (\<open>buildPartialC_error\<close>).
\<close>

datatype error = TypeError | InvalidArgument | UnsafeRange

text \<open>An array read \<^verbatim>\<open>xs[i]\<close>: \<open>None\<close> is \<^verbatim>\<open>undefined\<close>.\<close>

definition js_get :: "'a list \<Rightarrow> int \<Rightarrow> 'a option" where
  "js_get xs i = (if 0 \<le> i \<and> i < int (length xs) then Some (xs ! nat i) else None)"

text \<open>
  The read \<^verbatim>\<open>m[i][j]\<close> as an operand of a product: a missing row makes the second
  index throw, a missing element is \<^verbatim>\<open>undefined\<close> and behaves as \<^verbatim>\<open>NaN\<close>.
\<close>

definition js_get2 :: "int list list \<Rightarrow> int \<Rightarrow> int \<Rightarrow> error + jsnum" where
  "js_get2 m i j =
     (case js_get m i of
        None \<Rightarrow> Inl TypeError
      | Some row \<Rightarrow> Inr (case js_get row j of None \<Rightarrow> NaN | Some v \<Rightarrow> Num v))"

text \<open>
  An array write \<^verbatim>\<open>xs[i] = v\<close> on an array of nullable cells: past the end the
  array grows and the cells in between are holes; a negative index leaves the elements alone.
\<close>

definition js_set :: "'a option list \<Rightarrow> int \<Rightarrow> 'a option \<Rightarrow> 'a option list" where
  "js_set xs i v =
     (if i < 0 then xs
      else if i < int (length xs) then xs[nat i := v]
      else xs @ replicate (nat i - length xs) None @ [v])"

text \<open>The write \<^verbatim>\<open>out[r][c] = v\<close>: a missing row throws.\<close>

definition js_set2 ::
  "'a option list list \<Rightarrow> int \<Rightarrow> int \<Rightarrow> 'a option \<Rightarrow> error + 'a option list list" where
  "js_set2 out r c v =
     (case js_get out r of
        None \<Rightarrow> Inl TypeError
      | Some row \<Rightarrow> Inr (out[nat r := js_set row c v]))"

subsection \<open>Configuration and derived constants\<close>

definition TILE_SIZE :: int where "TILE_SIZE = 4"
definition M :: int where "M = 7"
definition N :: int where "N = 6"
definition K :: int where "K = 9"

definition ROW_TILES :: int where "ROW_TILES = ceil_div M TILE_SIZE"
definition INNER_TILES :: int where "INNER_TILES = ceil_div N TILE_SIZE"
definition COL_TILES :: int where "COL_TILES = ceil_div K TILE_SIZE"
definition TOTAL_STEPS :: int where "TOTAL_STEPS = ROW_TILES * COL_TILES * INNER_TILES"

text \<open>\<^verbatim>\<open>buildMatrix(rows, cols, seed)\<close>, the demonstration matrices.\<close>

definition buildMatrix :: "int \<Rightarrow> int \<Rightarrow> int \<Rightarrow> int list list" where
  "buildMatrix rows cols seed =
     map (\<lambda>r. map (\<lambda>c. js_rem (r * (seed + 2) + c * (seed + 3) + seed) 9 + 1) [0..cols - 1])
       [0..rows - 1]"

subsection \<open>Tile ranges and the progress counter\<close>

text \<open>
  \<^verbatim>\<open>getTileRange\<close> on integer arguments, in double arithmetic:
  \<^verbatim>\<open>start + TILE_SIZE - 1\<close> is a sum followed by a difference, each rounded.
\<close>

definition getTileRange :: "int \<Rightarrow> int \<Rightarrow> jsnum \<times> jsnum" where
  "getTileRange tileIndex maxSize =
     (let start = jsmul (Num tileIndex) (Num TILE_SIZE);
          end = jsmin (jssub (jsadd start (Num TILE_SIZE)) (Num 1)) (jssub (Num maxSize) (Num 1))
      in (start, end))"

text \<open>The bounds of a range as loop bounds, when both are integers of magnitude below \<open>2 ^ 53\<close>.\<close>

definition safe_range :: "jsnum \<times> jsnum \<Rightarrow> (int \<times> int) option" where
  "safe_range rg =
     (case rg of
        (Num lo, Num hi) \<Rightarrow>
          if \<bar>lo\<bar> < 2 ^ 53 \<and> \<bar>hi\<bar> < 2 ^ 53 then Some (lo, hi) else None
      | _ \<Rightarrow> None)"

definition tileContributionCount :: "int \<Rightarrow> int \<Rightarrow> int \<Rightarrow> int" where
  "tileContributionCount s rowTile colTile =
     (let tileIndex = rowTile * COL_TILES + colTile;
          baseStep = tileIndex * INNER_TILES;
          delta = s - baseStep + 1
      in if delta \<le> 0 then 0 else min INNER_TILES delta)"

text \<open>
  The tile-range contract as the specification words it, for comparison with
  \<open>getTileRange\<close>: an index outside the dimension is rejected.
\<close>

definition tileRange_spec :: "int \<Rightarrow> int \<Rightarrow> int \<Rightarrow> error + int \<times> int" where
  "tileRange_spec tileIndex dimExtent tileSize =
     (if tileIndex < 0 \<or> tileIndex * tileSize \<ge> dimExtent then Inl InvalidArgument
      else Inr (tileIndex * tileSize, min (tileIndex * tileSize + tileSize - 1) (dimExtent - 1)))"

subsection \<open>The step decoder\<close>

text \<open>The triple is \<open>(rowTile, colTile, innerTile)\<close>.\<close>

definition decodeStep :: "int \<Rightarrow> int \<times> int \<times> int" where
  "decodeStep s =
     (let inner = js_rem s INNER_TILES;
          col = js_rem (floor_div s INNER_TILES) COL_TILES;
          row = floor_div s (INNER_TILES * COL_TILES)
      in (row, col, inner))"

subsection \<open>The partial-result materializer\<close>

text \<open>
  \<^verbatim>\<open>buildPartialC\<close> is six nested loops. Each loop is one recursive function, named
  after its loop variable and taking the loop variable's current value; the innermost
  two thread the running \<^verbatim>\<open>sum\<close> (here \<open>acc\<close>), the others the output array \<^verbatim>\<open>out\<close>, whose
  cells are \<open>None\<close> for \<^verbatim>\<open>null\<close>.
\<close>

type_synonym partialC = "jsnum option list list"

function loop_n ::
  "int list list \<Rightarrow> int list list \<Rightarrow> int \<Rightarrow> int \<Rightarrow> int \<Rightarrow> int \<Rightarrow> jsnum \<Rightarrow> error + jsnum" where
  "loop_n matrixA matrixB r c n hi acc =
     (if n \<le> hi then
        (case js_get2 matrixA r n of
           Inl e \<Rightarrow> Inl e
         | Inr a \<Rightarrow>
             (case js_get2 matrixB n c of
                Inl e \<Rightarrow> Inl e
              | Inr b \<Rightarrow> loop_n matrixA matrixB r c (n + 1) hi (jsadd acc (jsmul a b))))
      else Inr acc)"
  by pat_completeness auto
termination
  by (relation "measure (\<lambda>(matrixA, matrixB, r, c, n, hi, acc). nat (hi + 1 - n))") auto

function loop_innerTile ::
  "int list list \<Rightarrow> int list list \<Rightarrow> int \<Rightarrow> int \<Rightarrow> int \<Rightarrow> int \<Rightarrow> jsnum \<Rightarrow> error + jsnum" where
  "loop_innerTile matrixA matrixB r c innerTile contributions acc =
     (if innerTile < contributions then
        (case safe_range (getTileRange innerTile N) of
           None \<Rightarrow> Inl UnsafeRange
         | Some innerRange \<Rightarrow>
             (case loop_n matrixA matrixB r c (fst innerRange) (snd innerRange) acc of
                Inl e \<Rightarrow> Inl e
              | Inr acc' \<Rightarrow>
                  loop_innerTile matrixA matrixB r c (innerTile + 1) contributions acc'))
      else Inr acc)"
  by pat_completeness auto
termination
  by (relation "measure (\<lambda>(matrixA, matrixB, r, c, innerTile, contributions, acc).
        nat (contributions - innerTile))") auto

function loop_c ::
  "int list list \<Rightarrow> int list list \<Rightarrow> int \<Rightarrow> int \<Rightarrow> int \<Rightarrow> int \<Rightarrow> partialC \<Rightarrow> error + partialC" where
  "loop_c matrixA matrixB contributions r c hi out =
     (if c \<le> hi then
        (case loop_innerTile matrixA matrixB r c 0 contributions (Num 0) of
           Inl e \<Rightarrow> Inl e
         | Inr acc \<Rightarrow>
             (case js_set2 out r c (Some acc) of
                Inl e \<Rightarrow> Inl e
              | Inr out' \<Rightarrow> loop_c matrixA matrixB contributions r (c + 1) hi out'))
      else Inr out)"
  by pat_completeness auto
termination
  by (relation "measure (\<lambda>(matrixA, matrixB, contributions, r, c, hi, out). nat (hi + 1 - c))")
    auto

function loop_r ::
  "int list list \<Rightarrow> int list list \<Rightarrow> int \<Rightarrow> int \<times> int \<Rightarrow> int \<Rightarrow> int \<Rightarrow> partialC
     \<Rightarrow> error + partialC" where
  "loop_r matrixA matrixB contributions colRange r hi out =
     (if r \<le> hi then
        (case loop_c matrixA matrixB contributions r (fst colRange) (snd colRange) out of
           Inl e \<Rightarrow> Inl e
         | Inr out' \<Rightarrow> loop_r matrixA matrixB contributions colRange (r + 1) hi out')
      else Inr out)"
  by pat_completeness auto
termination
  by (relation "measure (\<lambda>(matrixA, matrixB, contributions, colRange, r, hi, out).
        nat (hi + 1 - r))") auto

function loop_colTile ::
  "int list list \<Rightarrow> int list list \<Rightarrow> int \<Rightarrow> int \<Rightarrow> int \<times> int \<Rightarrow> int \<Rightarrow> partialC
     \<Rightarrow> error + partialC" where
  "loop_colTile matrixA matrixB s rowTile rowRange colTile out =
     (if colTile < COL_TILES then
        (case safe_range (getTileRange colTile K) of
           None \<Rightarrow> Inl UnsafeRange
         | Some colRange \<Rightarrow>
             (let contributions = tileContributionCount s rowTile colTile
              in if contributions \<le> 0
                 then loop_colTile matrixA matrixB s rowTile rowRange (colTile + 1) out
                 else
                   (case loop_r matrixA matrixB contributions colRange
                           (fst rowRange) (snd rowRange) out of
                      Inl e \<Rightarrow> Inl e
                    | Inr out' \<Rightarrow>
                        loop_colTile matrixA matrixB s rowTile rowRange (colTile + 1) out')))
      else Inr out)"
  by pat_completeness auto
termination
  by (relation "measure (\<lambda>(matrixA, matrixB, s, rowTile, rowRange, colTile, out).
        nat (COL_TILES - colTile))") auto

function loop_rowTile ::
  "int list list \<Rightarrow> int list list \<Rightarrow> int \<Rightarrow> int \<Rightarrow> partialC \<Rightarrow> error + partialC" where
  "loop_rowTile matrixA matrixB s rowTile out =
     (if rowTile < ROW_TILES then
        (case safe_range (getTileRange rowTile M) of
           None \<Rightarrow> Inl UnsafeRange
         | Some rowRange \<Rightarrow>
             (case loop_colTile matrixA matrixB s rowTile rowRange 0 out of
                Inl e \<Rightarrow> Inl e
              | Inr out' \<Rightarrow> loop_rowTile matrixA matrixB s (rowTile + 1) out'))
      else Inr out)"
  by pat_completeness auto
termination
  by (relation "measure (\<lambda>(matrixA, matrixB, s, rowTile, out). nat (ROW_TILES - rowTile))")
    auto

text \<open>The loop equations are unfolded by hand, one iteration at a time.\<close>

declare loop_n.simps [simp del] loop_innerTile.simps [simp del] loop_c.simps [simp del]
  loop_r.simps [simp del] loop_colTile.simps [simp del] loop_rowTile.simps [simp del]

definition buildPartialC :: "int list list \<Rightarrow> int list list \<Rightarrow> int \<Rightarrow> error + partialC" where
  "buildPartialC matrixA matrixB s =
     loop_rowTile matrixA matrixB s 0 (replicate (nat M) (replicate (nat K) None))"

text \<open>
  The conventional product, without tiling: entry \<open>(r, c)\<close> is the sum of
  \<open>A[r][n] * B[n][c]\<close> over \<open>n\<close> in \<open>[0, N)\<close>, and every entry is defined.
\<close>

definition product_entry :: "int list list \<Rightarrow> int list list \<Rightarrow> nat \<Rightarrow> nat \<Rightarrow> int" where
  "product_entry A B r c = (\<Sum>n \<leftarrow> [0..<nat N]. A ! r ! n * B ! n ! c)"

definition direct_product :: "int list list \<Rightarrow> int list list \<Rightarrow> partialC" where
  "direct_product A B =
     map (\<lambda>r. map (\<lambda>c. Some (Num (product_entry A B r c))) [0..<nat K]) [0..<nat M]"

text \<open>A matrix of the given shape: \<open>rows\<close> rows, each of \<open>cols\<close> entries.\<close>

definition has_shape :: "int \<Rightarrow> int \<Rightarrow> 'a list list \<Rightarrow> bool" where
  "has_shape rows cols m \<longleftrightarrow> int (length m) = rows \<and> list_all (\<lambda>row. int (length row) = cols) m"

text \<open>A matrix of JavaScript numbers: every entry is a double.\<close>

definition all_doubles :: "int list list \<Rightarrow> bool" where
  "all_doubles m \<longleftrightarrow> list_all (list_all is_double) m"

text \<open>
  The products of one output cell have absolute values that add up to at most \<open>2 ^ 53\<close>,
  in every cell: then no product and no partial sum leaves the integers that doubles
  hold exactly.
\<close>

definition sums_exact :: "int list list \<Rightarrow> int list list \<Rightarrow> bool" where
  "sums_exact A B \<longleftrightarrow>
     list_all (\<lambda>r. list_all (\<lambda>c. (\<Sum>n \<leftarrow> [0..<nat N]. \<bar>A ! r ! n * B ! n ! c\<bar>) \<le> 2 ^ 53)
       [0..<nat K]) [0..<nat M]"

text \<open>
  How one output array arises from another: \<open>out'\<close> has the output's shape, holds the
  finished product entry at every position of \<open>S\<close>, and is \<open>out\<close> elsewhere.
\<close>

definition filled ::
  "int list list \<Rightarrow> int list list \<Rightarrow> (int \<times> int) set \<Rightarrow> partialC \<Rightarrow> partialC \<Rightarrow> bool" where
  "filled A B S out out' \<longleftrightarrow>
     has_shape M K out' \<and>
     (\<forall>i < nat M. \<forall>j < nat K.
        out' ! i ! j =
          (if (int i, int j) \<in> S then Some (Num (product_entry A B i j)) else out ! i ! j))"

subsection \<open>The playback and navigation controller\<close>

text \<open>
  The component's state is the pair of \<^verbatim>\<open>useState\<close> cells. Each handler is a
  transition on it. The interval timer exists exactly while \<^verbatim>\<open>isPlaying\<close> holds
  (the effect installs it when the flag is set and its cleanup clears it when the flag
  changes), so a timer tick is a transition that acts only in a playing state.
\<close>

record controller =
  step :: int
  isPlaying :: bool

definition reset :: "controller \<Rightarrow> controller" where
  "reset st = st\<lparr>isPlaying := False, step := 0\<rparr>"

definition prevStep :: "controller \<Rightarrow> controller" where
  "prevStep st = st\<lparr>isPlaying := False, step := js_rem (step st - 1 + TOTAL_STEPS) TOTAL_STEPS\<rparr>"

definition nextStep :: "controller \<Rightarrow> controller" where
  "nextStep st = st\<lparr>isPlaying := False, step := js_rem (step st + 1) TOTAL_STEPS\<rparr>"

definition togglePlay :: "controller \<Rightarrow> controller" where
  "togglePlay st = st\<lparr>isPlaying := \<not> isPlaying st\<rparr>"

text \<open>
  The slider's \<^verbatim>\<open>onChange\<close> handler of the tiled simulator; \<open>v\<close> is
  \<^verbatim>\<open>Number(event.currentTarget.value)\<close>.
\<close>

definition sliderChange :: "int \<Rightarrow> controller \<Rightarrow> controller" where
  "sliderChange v st = st\<lparr>isPlaying := False, step := v\<rparr>"



definition timerTick :: "controller \<Rightarrow> controller" where
  "timerTick st = (if isPlaying st then st\<lparr>step := js_rem (step st + 1) TOTAL_STEPS\<rparr> else st)"

datatype event = Prev | Next | Reset | TogglePlay | Slider int | Tick

fun dispatch :: "event \<Rightarrow> controller \<Rightarrow> controller" where
  "dispatch Prev st = prevStep st"
| "dispatch Next st = nextStep st"
| "dispatch Reset st = reset st"
| "dispatch TogglePlay st = togglePlay st"
| "dispatch (Slider v) st = sliderChange v st"
| "dispatch Tick st = timerTick st"

text \<open>The state after a sequence of events, the first event first.\<close>

fun run :: "event list \<Rightarrow> controller \<Rightarrow> controller" where
  "run [] st = st"
| "run (e # es) st = run es (dispatch e st)"



section \<open>Properties\<close>

lemma ROW_TILES_eq: "ROW_TILES = 2"
  by (simp add: ROW_TILES_def ceil_div_def M_def TILE_SIZE_def)

lemma INNER_TILES_eq: "INNER_TILES = 2"
  by (simp add: INNER_TILES_def ceil_div_def N_def TILE_SIZE_def)

lemma COL_TILES_eq: "COL_TILES = 3"
  by (simp add: COL_TILES_def ceil_div_def K_def TILE_SIZE_def)

lemma TOTAL_STEPS_eq: "TOTAL_STEPS = 12"
  by (simp add: TOTAL_STEPS_def ROW_TILES_eq INNER_TILES_eq COL_TILES_eq)

lemma js_rem_nonneg: "0 \<le> a \<Longrightarrow> 0 < b \<Longrightarrow> js_rem a b = a mod b"
  by (cases "a = 0") (simp_all add: js_rem_def)

subsection \<open>Doubles on the integers they hold exactly\<close>

lemma bit_length_bound: "m < 2 ^ k \<Longrightarrow> bit_length m \<le> k"
proof (induction k arbitrary: m)
  case 0
  then show ?case
    by (simp add: bit_length.simps)
next
  case (Suc k)
  show ?case
  proof (cases "m \<le> 0")
    case True
    then show ?thesis
      by (simp add: bit_length.simps)
  next
    case False
    have "m div 2 < 2 ^ k"
      using Suc.prems by simp
    then have "bit_length (m div 2) \<le> k"
      by (rule Suc.IH)
    then show ?thesis
      using False by (subst bit_length.simps) simp
  qed
qed

lemma round_mag_small: "m < 2 ^ 53 \<Longrightarrow> round_mag m = m"
proof -
  assume "m < 2 ^ 53"
  then have "bit_length m - 53 = 0"
    using bit_length_bound[of m 53] by simp
  then show ?thesis
    by (simp add: round_mag_def)
qed

lemma round_mag_top: "round_mag (2 ^ 53) = 2 ^ 53"
  by code_simp

lemma round_mag_exact: "m \<le> 2 ^ 53 \<Longrightarrow> round_mag m = m"
  using round_mag_small[of m] round_mag_top by (cases "m = 2 ^ 53") simp_all

lemma round_double_exact: "\<bar>x\<bar> \<le> 2 ^ 53 \<Longrightarrow> round_double x = Num x"
proof -
  assume a: "\<bar>x\<bar> \<le> 2 ^ 53"
  have m: "round_mag \<bar>x\<bar> = \<bar>x\<bar>"
    using a by (rule round_mag_exact)
  have "\<bar>x\<bar> < 2 ^ 54"
    using a by simp
  then have "bit_length \<bar>x\<bar> \<le> 54"
    by (rule bit_length_bound)
  then have "\<not> 1024 < bit_length \<bar>x\<bar>"
    by simp
  moreover have "sgn x * \<bar>x\<bar> = x"
    by (simp add: mult_sgn_abs)
  ultimately show ?thesis
    by (simp add: round_double_def m)
qed

lemma jsadd_exact: "\<bar>a + b\<bar> \<le> 2 ^ 53 \<Longrightarrow> jsadd (Num a) (Num b) = Num (a + b)"
  by (simp add: round_double_exact)

lemma jssub_exact: "\<bar>a - b\<bar> \<le> 2 ^ 53 \<Longrightarrow> jssub (Num a) (Num b) = Num (a - b)"
  by (simp add: jssub_def round_double_exact)

lemma jsmul_exact: "\<bar>a * b\<bar> \<le> 2 ^ 53 \<Longrightarrow> jsmul (Num a) (Num b) = Num (a * b)"
  by (simp add: round_double_exact)

lemma getTileRange_exact:
  assumes "\<bar>t\<bar> < 2 ^ 50" and "\<bar>E\<bar> < 2 ^ 53"
  shows "getTileRange t E =
    (Num (t * TILE_SIZE), Num (min (t * TILE_SIZE + TILE_SIZE - 1) (E - 1)))"
proof -
  have 1: "jsmul (Num t) (Num TILE_SIZE) = Num (t * TILE_SIZE)"
    using assms(1) by (intro jsmul_exact) (simp add: TILE_SIZE_def abs_mult)
  have 2: "jsadd (Num (t * TILE_SIZE)) (Num TILE_SIZE) = Num (t * TILE_SIZE + TILE_SIZE)"
    using assms(1) by (intro jsadd_exact) (simp add: TILE_SIZE_def)
  have 3: "jssub (Num (t * TILE_SIZE + TILE_SIZE)) (Num 1) = Num (t * TILE_SIZE + TILE_SIZE - 1)"
    using assms(1) by (intro jssub_exact) (simp add: TILE_SIZE_def)
  have 4: "jssub (Num E) (Num 1) = Num (E - 1)"
    using assms(2) by (intro jssub_exact) simp
  show ?thesis
    unfolding getTileRange_def Let_def 1 2 3 4 by simp
qed

lemma safe_range_tile:
  assumes "0 \<le> t" and "t < 3" and "0 < E" and "E < 10"
  shows "safe_range (getTileRange t E) =
    Some (t * TILE_SIZE, min (t * TILE_SIZE + TILE_SIZE - 1) (E - 1))"
proof -
  have "getTileRange t E =
      (Num (t * TILE_SIZE), Num (min (t * TILE_SIZE + TILE_SIZE - 1) (E - 1)))"
    using assms by (intro getTileRange_exact) simp_all
  then show ?thesis
    using assms by (simp add: safe_range_def TILE_SIZE_def)
qed

subsection \<open>The materializer at the last step\<close>

lemma js_get2_in:
  "has_shape rows cols m \<Longrightarrow> 0 \<le> i \<Longrightarrow> i < rows \<Longrightarrow> 0 \<le> j \<Longrightarrow> j < cols \<Longrightarrow>
   js_get2 m i j = Inr (Num (m ! nat i ! nat j))"
  by (auto simp: has_shape_def js_get2_def js_get_def list_all_length)

lemma loop_n_sum:
  assumes "has_shape M N A" "has_shape N K B" "0 \<le> r" "r < M" "0 \<le> c" "c < K"
  shows "0 \<le> n \<Longrightarrow> hi < N \<Longrightarrow>
    \<bar>a\<bar> + (\<Sum>k \<leftarrow> [nat n..<nat (hi + 1)]. \<bar>A ! nat r ! k * B ! k ! nat c\<bar>) \<le> 2 ^ 53 \<Longrightarrow>
    loop_n A B r c n hi (Num a) =
      Inr (Num (a + (\<Sum>k \<leftarrow> [nat n..<nat (hi + 1)]. A ! nat r ! k * B ! k ! nat c)))"
proof (induction "nat (hi + 1 - n)" arbitrary: n a)
  case 0
  then have "\<not> n \<le> hi"
    by simp
  then show ?case
    by (simp add: loop_n.simps)
next
  case (Suc d)
  then have le: "n \<le> hi"
    by linarith
  let ?t = "A ! nat r ! nat n * B ! nat n ! nat c"
  have ga: "js_get2 A r n = Inr (Num (A ! nat r ! nat n))"
    using assms Suc.prems le by (intro js_get2_in[of M N]) auto
  have gb: "js_get2 B n c = Inr (Num (B ! nat n ! nat c))"
    using assms Suc.prems le by (intro js_get2_in[of N K]) auto
  have d: "d = nat (hi + 1 - (n + 1))"
    using Suc.hyps(2) by linarith
  have split: "[nat n..<nat (hi + 1)] = nat n # [nat (n + 1)..<nat (hi + 1)]"
  proof -
    have "nat n < nat (hi + 1)" "Suc (nat n) = nat (n + 1)"
      using le Suc.prems by linarith+
    then show ?thesis
      by (metis upt_conv_Cons)
  qed
  have rest: "0 \<le> (\<Sum>k \<leftarrow> [nat (n + 1)..<nat (hi + 1)]. \<bar>A ! nat r ! k * B ! k ! nat c\<bar>)"
    by (rule sum_list_nonneg) auto
  have bound: "\<bar>a\<bar> + \<bar>?t\<bar> +
      (\<Sum>k \<leftarrow> [nat (n + 1)..<nat (hi + 1)]. \<bar>A ! nat r ! k * B ! k ! nat c\<bar>) \<le> 2 ^ 53"
    using Suc.prems(3) by (simp add: split)
  have m: "jsmul (Num (A ! nat r ! nat n)) (Num (B ! nat n ! nat c)) = Num ?t"
    using bound rest by (intro jsmul_exact) linarith
  have s: "jsadd (Num a) (Num ?t) = Num (a + ?t)"
    using bound rest by (intro jsadd_exact) linarith
  have "loop_n A B r c n hi (Num a) = loop_n A B r c (n + 1) hi (Num (a + ?t))"
    using le by (subst loop_n.simps) (simp add: ga gb m s del: jsadd.simps jsmul.simps)
  also have "\<dots> = Inr (Num (a + ?t +
       (\<Sum>k \<leftarrow> [nat (n + 1)..<nat (hi + 1)]. A ! nat r ! k * B ! k ! nat c)))"
  proof (rule Suc.hyps(1)[OF d])
    show "0 \<le> n + 1" "hi < N"
      using Suc.prems by simp_all
    show "\<bar>a + ?t\<bar> +
        (\<Sum>k \<leftarrow> [nat (n + 1)..<nat (hi + 1)]. \<bar>A ! nat r ! k * B ! k ! nat c\<bar>) \<le> 2 ^ 53"
      using bound by linarith
  qed
  also have "\<dots> = Inr (Num (a + (\<Sum>k \<leftarrow> [nat n..<nat (hi + 1)]. A ! nat r ! k * B ! k ! nat c)))"
    by (simp add: split)
  finally show ?case .
qed

lemma N_range0: "safe_range (getTileRange 0 N) = Some (0, 3)"
  using safe_range_tile[of 0 N] by (simp add: N_def TILE_SIZE_def)

lemma N_range1: "safe_range (getTileRange 1 N) = Some (4, 5)"
  using safe_range_tile[of 1 N] by (simp add: N_def TILE_SIZE_def)

lemma sums_exactD:
  assumes "sums_exact A B" and "r < nat M" and "c < nat K"
  shows "(\<Sum>n \<leftarrow> [0..<nat N]. \<bar>A ! r ! n * B ! n ! c\<bar>) \<le> 2 ^ 53"
  using assms by (simp add: sums_exact_def list_all_iff)

lemma loop_innerTile_full:
  assumes "has_shape M N A" "has_shape N K B" "0 \<le> r" "r < M" "0 \<le> c" "c < K"
    and "sums_exact A B"
  shows "loop_innerTile A B r c 0 INNER_TILES (Num 0) =
    Inr (Num (product_entry A B (nat r) (nat c)))"
proof -
  let ?t = "\<lambda>k. A ! nat r ! k * B ! k ! nat c"
  have six: "[0..<6] = [0..<4] @ [4..<6]"
    using upt_add_eq_append[of 0 4 2] by simp
  have "(\<Sum>k \<leftarrow> [0..<nat N]. \<bar>?t k\<bar>) \<le> 2 ^ 53"
    using assms by (intro sums_exactD) auto
  then have total: "(\<Sum>k \<leftarrow> [0..<4]. \<bar>?t k\<bar>) + (\<Sum>k \<leftarrow> [4..<6]. \<bar>?t k\<bar>) \<le> 2 ^ 53"
    by (simp add: N_def six)
  have tail: "0 \<le> (\<Sum>k \<leftarrow> [4..<6]. \<bar>?t k\<bar>)"
    by (rule sum_list_nonneg) auto
  have head: "\<bar>\<Sum>k \<leftarrow> [0..<4]. ?t k\<bar> \<le> (\<Sum>k \<leftarrow> [0..<4]. \<bar>?t k\<bar>)"
    using sum_list_abs[of "map ?t [0..<4]"] by (simp add: comp_def)
  have 1: "loop_n A B r c 0 3 (Num 0) =
      Inr (Num (0 + (\<Sum>k \<leftarrow> [nat 0..<nat (3 + 1)]. ?t k)))"
  proof (rule loop_n_sum[OF assms(1-6)])
    have "\<bar>0\<bar> + (\<Sum>k \<leftarrow> [0..<4]. \<bar>?t k\<bar>) \<le> (2 :: int) ^ 53"
      using total tail by linarith
    then show "\<bar>0\<bar> + (\<Sum>k \<leftarrow> [nat 0..<nat (3 + 1)]. \<bar>?t k\<bar>) \<le> 2 ^ 53"
      by simp
  qed (simp_all add: N_def)
  have 2: "loop_n A B r c 4 5 (Num (\<Sum>k \<leftarrow> [0..<4]. ?t k)) =
      Inr (Num ((\<Sum>k \<leftarrow> [0..<4]. ?t k) + (\<Sum>k \<leftarrow> [nat 4..<nat (5 + 1)]. ?t k)))"
  proof (rule loop_n_sum[OF assms(1-6)])
    have "\<bar>\<Sum>k \<leftarrow> [0..<4]. ?t k\<bar> + (\<Sum>k \<leftarrow> [4..<6]. \<bar>?t k\<bar>) \<le> (2 :: int) ^ 53"
      using total head by linarith
    then show "\<bar>\<Sum>k \<leftarrow> [0..<4]. ?t k\<bar> + (\<Sum>k \<leftarrow> [nat 4..<nat (5 + 1)]. \<bar>?t k\<bar>) \<le> 2 ^ 53"
      by simp
  qed (simp_all add: N_def)
  have "loop_innerTile A B r c 0 2 (Num 0) =
      loop_innerTile A B r c 1 2 (Num (\<Sum>k \<leftarrow> [0..<4]. ?t k))"
    using 1 by (subst loop_innerTile.simps) (simp add: N_range0)
  also have "\<dots> = loop_innerTile A B r c 2 2
      (Num ((\<Sum>k \<leftarrow> [0..<4]. ?t k) + (\<Sum>k \<leftarrow> [4..<6]. ?t k)))"
    using 2 by (subst loop_innerTile.simps) (simp add: N_range1)
  also have "\<dots> = Inr (Num ((\<Sum>k \<leftarrow> [0..<4]. ?t k) + (\<Sum>k \<leftarrow> [4..<6]. ?t k)))"
    by (subst loop_innerTile.simps) simp
  also have "\<dots> = Inr (Num (product_entry A B (nat r) (nat c)))"
    by (simp add: product_entry_def N_def six)
  finally show ?thesis
    by (simp add: INNER_TILES_eq)
qed

lemma has_shapeD:
  assumes "has_shape rows cols m"
  shows "length m = nat rows" and "\<And>i. i < nat rows \<Longrightarrow> length (m ! i) = nat cols"
proof -
  show l: "length m = nat rows" using assms by (auto simp: has_shape_def)
  fix i assume "i < nat rows"
  then have "int (length (m ! i)) = cols"
    using assms l by (simp add: has_shape_def list_all_length)
  then show "length (m ! i) = nat cols" by linarith
qed

lemma has_shapeI:
  "length m = nat rows \<Longrightarrow> 0 \<le> rows \<Longrightarrow> 0 \<le> cols \<Longrightarrow>
   (\<And>i. i < nat rows \<Longrightarrow> length (m ! i) = nat cols) \<Longrightarrow> has_shape rows cols m"
  by (simp add: has_shape_def list_all_length)

lemma filled_empty: "has_shape M K out \<Longrightarrow> filled A B {} out out"
  by (simp add: filled_def)

lemma filled_trans:
  "filled A B S1 out out1 \<Longrightarrow> filled A B S2 out1 out2 \<Longrightarrow> S = S1 \<union> S2 \<Longrightarrow> filled A B S out out2"
  by (auto simp: filled_def)

lemma filled_shape: "filled A B S out out' \<Longrightarrow> has_shape M K out'"
  by (simp add: filled_def)

lemma js_set2_filled:
  assumes "has_shape M K out" "0 \<le> r" "r < M" "0 \<le> c" "c < K"
  shows "\<exists>out'. js_set2 out r c (Some (Num (product_entry A B (nat r) (nat c)))) = Inr out' \<and>
           filled A B {(r, c)} out out'"
proof -
  let ?v = "Some (Num (product_entry A B (nat r) (nat c)))"
  let ?out' = "out[nat r := (out ! nat r)[nat c := ?v]]"
  have len: "length out = nat M" and rows: "\<And>i. i < nat M \<Longrightarrow> length (out ! i) = nat K"
    using has_shapeD[OF assms(1)] by auto
  have rn: "nat r < nat M" and cn: "nat c < nat K" using assms by linarith+
  have "js_set2 out r c ?v = Inr ?out'"
    using assms len rows[OF rn] by (simp add: js_set2_def js_get_def js_set_def)
  moreover have "has_shape M K ?out'"
  proof (rule has_shapeI)
    show "length ?out' = nat M" using len by simp
    show "0 \<le> M" "0 \<le> K" by (simp_all add: M_def K_def)
    fix i assume "i < nat M"
    then show "length (?out' ! i) = nat K"
      using len rows by (cases "i = nat r") (simp_all add: nth_list_update)
  qed
  moreover have "?out' ! i ! j =
          (if (int i, int j) \<in> {(r, c)} then Some (Num (product_entry A B i j)) else out ! i ! j)"
    if "i < nat M" "j < nat K" for i j
    using that assms len rows rn cn by (auto simp: nth_list_update)
  ultimately show ?thesis unfolding filled_def by blast
qed

lemma loop_c_filled:
  assumes "has_shape M N A" "has_shape N K B" "0 \<le> r" "r < M" and ex: "sums_exact A B"
  shows "has_shape M K out \<Longrightarrow> 0 \<le> c \<Longrightarrow> hi < K \<Longrightarrow>
    \<exists>out'. loop_c A B INNER_TILES r c hi out = Inr out' \<and>
      filled A B ({r} \<times> {c..hi}) out out'"
proof (induction "nat (hi + 1 - c)" arbitrary: c out)
  case 0
  then have "\<not> c \<le> hi" by simp
  then show ?case using 0 by (simp add: loop_c.simps filled_empty)
next
  case (Suc d)
  then have le: "c \<le> hi" by linarith
  then have cK: "c < K" using Suc.prems by simp
  obtain out1 where s1: "js_set2 out r c (Some (Num (product_entry A B (nat r) (nat c)))) = Inr out1"
    and f1: "filled A B {(r, c)} out out1"
    using js_set2_filled[OF Suc.prems(1) assms(3,4) Suc.prems(2) cK] by blast
  have d: "d = nat (hi + 1 - (c + 1))" using Suc.hyps(2) by linarith
  obtain out' where s2: "loop_c A B INNER_TILES r (c + 1) hi out1 = Inr out'"
    and f2: "filled A B ({r} \<times> {c + 1..hi}) out1 out'"
    using Suc.hyps(1)[OF d filled_shape[OF f1]] Suc.prems by auto
  have "loop_c A B INNER_TILES r c hi out = Inr out'"
    using le by (subst loop_c.simps)
      (simp add: loop_innerTile_full[OF assms(1-4) Suc.prems(2) cK ex] s1 s2)
  moreover have "filled A B ({r} \<times> {c..hi}) out out'"
    by (rule filled_trans[OF f1 f2]) (use le in auto)
  ultimately show ?case by blast
qed

lemma loop_r_filled:
  assumes "has_shape M N A" "has_shape N K B" "0 \<le> clo" "chi < K" and ex: "sums_exact A B"
  shows "has_shape M K out \<Longrightarrow> 0 \<le> r \<Longrightarrow> hi < M \<Longrightarrow>
    \<exists>out'. loop_r A B INNER_TILES (clo, chi) r hi out = Inr out' \<and>
      filled A B ({r..hi} \<times> {clo..chi}) out out'"
proof (induction "nat (hi + 1 - r)" arbitrary: r out)
  case 0
  then have "\<not> r \<le> hi" by simp
  then show ?case using 0 by (simp add: loop_r.simps filled_empty)
next
  case (Suc d)
  then have le: "r \<le> hi" by linarith
  then have rM: "r < M" using Suc.prems by simp
  obtain out1 where s1: "loop_c A B INNER_TILES r clo chi out = Inr out1"
    and f1: "filled A B ({r} \<times> {clo..chi}) out out1"
    using loop_c_filled[OF assms(1,2) Suc.prems(2) rM ex Suc.prems(1) assms(3,4)] by blast
  have d: "d = nat (hi + 1 - (r + 1))" using Suc.hyps(2) by linarith
  obtain out' where s2: "loop_r A B INNER_TILES (clo, chi) (r + 1) hi out1 = Inr out'"
    and f2: "filled A B ({r + 1..hi} \<times> {clo..chi}) out1 out'"
    using Suc.hyps(1)[OF d filled_shape[OF f1]] Suc.prems by auto
  have "loop_r A B INNER_TILES (clo, chi) r hi out = Inr out'"
    using le by (subst loop_r.simps) (simp add: s1 s2)
  moreover have "filled A B ({r..hi} \<times> {clo..chi}) out out'"
    by (rule filled_trans[OF f1 f2]) (use le in auto)
  ultimately show ?case by blast
qed


lemma tileContributionCount_final:
  "0 \<le> rt \<Longrightarrow> rt < ROW_TILES \<Longrightarrow> 0 \<le> ct \<Longrightarrow> ct < COL_TILES \<Longrightarrow>
   tileContributionCount (TOTAL_STEPS - 1) rt ct = INNER_TILES"
  by (simp add: tileContributionCount_def Let_def TOTAL_STEPS_eq ROW_TILES_eq COL_TILES_eq
      INNER_TILES_eq)

lemma loop_colTile_filled:
  assumes "has_shape M N A" "has_shape N K B" "0 \<le> rt" "rt < ROW_TILES"
    and ex: "sums_exact A B"
  shows "has_shape M K out \<Longrightarrow> 0 \<le> ct \<Longrightarrow>
    \<exists>out'. loop_colTile A B (TOTAL_STEPS - 1) rt
        (rt * TILE_SIZE, min (rt * TILE_SIZE + TILE_SIZE - 1) (M - 1)) ct out = Inr out' \<and>
      filled A B ({rt * TILE_SIZE..min (rt * TILE_SIZE + TILE_SIZE - 1) (M - 1)} \<times>
        {ct * TILE_SIZE..K - 1}) out out'"
proof (induction "nat (COL_TILES - ct)" arbitrary: ct out)
  case 0
  then have ge: "\<not> ct < COL_TILES"
    by simp
  then have "{ct * TILE_SIZE..K - 1} = {}"
    by (simp add: COL_TILES_eq TILE_SIZE_def K_def)
  then show ?case
    using 0 ge by (simp add: loop_colTile.simps filled_empty)
next
  case (Suc d)
  then have lt: "ct < COL_TILES"
    by linarith
  let ?rlo = "rt * TILE_SIZE"
  let ?rhi = "min (rt * TILE_SIZE + TILE_SIZE - 1) (M - 1)"
  let ?clo = "ct * TILE_SIZE"
  let ?chi = "min (ct * TILE_SIZE + TILE_SIZE - 1) (K - 1)"
  have cr: "safe_range (getTileRange ct K) = Some (?clo, ?chi)"
    using Suc.prems(2) lt by (intro safe_range_tile) (simp_all add: COL_TILES_eq K_def)
  have cnt: "tileContributionCount (TOTAL_STEPS - 1) rt ct = INNER_TILES"
    using assms(3,4) Suc.prems(2) lt by (rule tileContributionCount_final)
  have "\<exists>out1. loop_r A B INNER_TILES (?clo, ?chi) ?rlo ?rhi out = Inr out1 \<and>
      filled A B ({?rlo..?rhi} \<times> {?clo..?chi}) out out1"
  proof (rule loop_r_filled[OF assms(1,2) _ _ ex Suc.prems(1)])
    show "0 \<le> ?clo"
      using Suc.prems(2) by (simp add: TILE_SIZE_def)
    show "0 \<le> ?rlo"
      using assms(3) by (simp add: TILE_SIZE_def)
    show "?chi < K"
      by simp
    show "?rhi < M"
      by simp
  qed
  then obtain out1 where s1: "loop_r A B INNER_TILES (?clo, ?chi) ?rlo ?rhi out = Inr out1"
    and f1: "filled A B ({?rlo..?rhi} \<times> {?clo..?chi}) out out1"
    by blast
  have d: "d = nat (COL_TILES - (ct + 1))"
    using Suc.hyps(2) by linarith
  obtain out' where s2: "loop_colTile A B (TOTAL_STEPS - 1) rt (?rlo, ?rhi) (ct + 1) out1
        = Inr out'"
    and f2: "filled A B ({?rlo..?rhi} \<times> {(ct + 1) * TILE_SIZE..K - 1}) out1 out'"
    using Suc.hyps(1)[OF d filled_shape[OF f1]] Suc.prems by auto
  have "loop_colTile A B (TOTAL_STEPS - 1) rt (?rlo, ?rhi) ct out = Inr out'"
  proof -
    have ip: "\<not> INNER_TILES \<le> 0"
      by (simp add: INNER_TILES_eq)
    show ?thesis
      using lt s2 by (subst loop_colTile.simps) (simp add: cr cnt ip s1 Let_def)
  qed
  moreover have "filled A B ({?rlo..?rhi} \<times> {?clo..K - 1}) out out'"
    by (rule filled_trans[OF f1 f2]) (auto simp: TILE_SIZE_def)
  ultimately show ?case
    by blast
qed

lemma loop_rowTile_filled:
  assumes "has_shape M N A" "has_shape N K B" and ex: "sums_exact A B"
  shows "has_shape M K out \<Longrightarrow> 0 \<le> rt \<Longrightarrow>
    \<exists>out'. loop_rowTile A B (TOTAL_STEPS - 1) rt out = Inr out' \<and>
      filled A B ({rt * TILE_SIZE..M - 1} \<times> {0..K - 1}) out out'"
proof (induction "nat (ROW_TILES - rt)" arbitrary: rt out)
  case 0
  then have ge: "\<not> rt < ROW_TILES"
    by simp
  then have "{rt * TILE_SIZE..M - 1} = {}"
    by (simp add: ROW_TILES_eq TILE_SIZE_def M_def)
  then show ?case
    using 0 ge by (simp add: loop_rowTile.simps filled_empty)
next
  case (Suc d)
  then have lt: "rt < ROW_TILES"
    by linarith
  let ?rlo = "rt * TILE_SIZE"
  let ?rhi = "min (rt * TILE_SIZE + TILE_SIZE - 1) (M - 1)"
  have rr: "safe_range (getTileRange rt M) = Some (?rlo, ?rhi)"
    using Suc.prems(2) lt by (intro safe_range_tile) (simp_all add: ROW_TILES_eq M_def)
  obtain out1 where s1: "loop_colTile A B (TOTAL_STEPS - 1) rt (?rlo, ?rhi) 0 out = Inr out1"
    and f1: "filled A B ({?rlo..?rhi} \<times> {0 * TILE_SIZE..K - 1}) out out1"
    using loop_colTile_filled[OF assms(1,2) Suc.prems(2) lt ex Suc.prems(1), of 0] by auto
  have d: "d = nat (ROW_TILES - (rt + 1))"
    using Suc.hyps(2) by linarith
  obtain out' where s2: "loop_rowTile A B (TOTAL_STEPS - 1) (rt + 1) out1 = Inr out'"
    and f2: "filled A B ({(rt + 1) * TILE_SIZE..M - 1} \<times> {0..K - 1}) out1 out'"
    using Suc.hyps(1)[OF d filled_shape[OF f1]] Suc.prems by auto
  have "loop_rowTile A B (TOTAL_STEPS - 1) rt out = Inr out'"
    using lt by (subst loop_rowTile.simps) (simp add: rr s1 s2)
  moreover have "filled A B ({?rlo..M - 1} \<times> {0..K - 1}) out out'"
    by (rule filled_trans[OF f1 f2]) (auto simp: TILE_SIZE_def)
  ultimately show ?case
    by blast
qed

lemma buildPartialC_final:
  assumes "has_shape M N A" "has_shape N K B" "sums_exact A B"
  shows "buildPartialC A B (TOTAL_STEPS - 1) = Inr (direct_product A B)"
proof -
  let ?init = "replicate (nat M) (replicate (nat K) None) :: partialC"
  have "has_shape M K ?init"
    by (simp add: has_shape_def list_all_length M_def K_def)
  then obtain out' where s: "loop_rowTile A B (TOTAL_STEPS - 1) 0 ?init = Inr out'"
    and f: "filled A B ({0 * TILE_SIZE..M - 1} \<times> {0..K - 1}) ?init out'"
    using loop_rowTile_filled[OF assms, of ?init 0] by auto
  have len: "length out' = nat M" and rows: "\<And>i. i < nat M \<Longrightarrow> length (out' ! i) = nat K"
    using has_shapeD[OF filled_shape[OF f]] by auto
  have cell: "out' ! i ! j = Some (Num (product_entry A B i j))" if "i < nat M" "j < nat K" for i j
    using f that unfolding filled_def by auto
  have "out' = direct_product A B"
  proof (rule nth_equalityI)
    show "length out' = length (direct_product A B)"
      by (simp add: len direct_product_def)
    fix i assume "i < length out'"
    then have i: "i < nat M"
      by (simp add: len)
    show "out' ! i = direct_product A B ! i"
    proof (rule nth_equalityI)
      show "length (out' ! i) = length (direct_product A B ! i)"
        using i by (simp add: rows direct_product_def)
      fix j assume "j < length (out' ! i)"
      then have j: "j < nat K"
        using i by (simp add: rows)
      show "out' ! i ! j = direct_product A B ! i ! j"
        using i j by (simp add: cell direct_product_def)
    qed
  qed
  then show ?thesis
    by (simp add: buildPartialC_def s)
qed

lemma product_entry_sum:
  "product_entry A B r c = (\<Sum>n = 0..<nat N. A ! r ! n * B ! n ! c)"
  by (simp add: product_entry_def interv_sum_list_conv_sum_set_nat)

lemma direct_product_cells:
  "length (direct_product A B) = nat M \<and>
   (\<forall>r < nat M. length (direct_product A B ! r) = nat K \<and>
      (\<forall>c < nat K. direct_product A B ! r ! c =
         Some (Num (\<Sum>n = 0..<nat N. A ! r ! n * B ! n ! c))))"
  by (simp add: direct_product_def product_entry_sum)

subsection \<open>The materializer throws nothing but a type error\<close>

text \<open>
  Whatever the matrices and the step, the tile ranges the materializer loops over are the
  small ranges of its own constants; an error it returns is the \<open>TypeError\<close> of a read
  or a write past the rows of a matrix.
\<close>

lemma js_get2_error: "js_get2 m i j = Inl e \<Longrightarrow> e = TypeError"
  by (auto simp: js_get2_def split: option.splits)

lemma js_set2_error: "js_set2 out r c v = Inl e \<Longrightarrow> e = TypeError"
  by (auto simp: js_set2_def split: option.splits)

lemma loop_n_error: "loop_n A B r c n hi acc = Inl e \<Longrightarrow> e = TypeError"
proof (induction "nat (hi + 1 - n)" arbitrary: n acc)
  case 0
  then have "\<not> n \<le> hi"
    by simp
  then show ?case
    using "0.prems" by (simp add: loop_n.simps)
next
  case (Suc d)
  then have le: "n \<le> hi"
    by linarith
  have d: "d = nat (hi + 1 - (n + 1))"
    using Suc.hyps(2) by linarith
  have "loop_n A B r c n hi acc =
      (case js_get2 A r n of
         Inl e \<Rightarrow> Inl e
       | Inr a \<Rightarrow>
           (case js_get2 B n c of
              Inl e \<Rightarrow> Inl e
            | Inr b \<Rightarrow> loop_n A B r c (n + 1) hi (jsadd acc (jsmul a b))))"
    using le by (subst loop_n.simps) simp
  then show ?case
    using Suc.prems Suc.hyps(1)[OF d] js_get2_error by (auto split: sum.splits)
qed

lemma loop_innerTile_error:
  "0 \<le> t \<Longrightarrow> cnt \<le> INNER_TILES \<Longrightarrow> loop_innerTile A B r c t cnt acc = Inl e \<Longrightarrow>
     e = TypeError"
proof (induction "nat (cnt - t)" arbitrary: t acc)
  case 0
  then have "\<not> t < cnt"
    by simp
  then show ?case
    using "0.prems" by (simp add: loop_innerTile.simps)
next
  case (Suc d)
  then have lt: "t < cnt"
    by linarith
  have d: "d = nat (cnt - (t + 1))"
    using Suc.hyps(2) by linarith
  have rg: "safe_range (getTileRange t N) =
      Some (t * TILE_SIZE, min (t * TILE_SIZE + TILE_SIZE - 1) (N - 1))"
    using Suc.prems(1,2) lt by (intro safe_range_tile) (simp_all add: INNER_TILES_eq N_def)
  have "loop_innerTile A B r c t cnt acc =
      (case loop_n A B r c (t * TILE_SIZE) (min (t * TILE_SIZE + TILE_SIZE - 1) (N - 1)) acc of
         Inl e \<Rightarrow> Inl e
       | Inr acc' \<Rightarrow> loop_innerTile A B r c (t + 1) cnt acc')"
    using lt by (subst loop_innerTile.simps) (simp add: rg)
  then show ?case
    using Suc.prems Suc.hyps(1)[OF d] loop_n_error by (auto split: sum.splits)
qed

lemma loop_c_error:
  "cnt \<le> INNER_TILES \<Longrightarrow> loop_c A B cnt r c hi out = Inl e \<Longrightarrow> e = TypeError"
proof (induction "nat (hi + 1 - c)" arbitrary: c out)
  case 0
  then have "\<not> c \<le> hi"
    by simp
  then show ?case
    using "0.prems" by (simp add: loop_c.simps)
next
  case (Suc d)
  then have le: "c \<le> hi"
    by linarith
  have d: "d = nat (hi + 1 - (c + 1))"
    using Suc.hyps(2) by linarith
  have "loop_c A B cnt r c hi out =
      (case loop_innerTile A B r c 0 cnt (Num 0) of
         Inl e \<Rightarrow> Inl e
       | Inr acc \<Rightarrow>
           (case js_set2 out r c (Some acc) of
              Inl e \<Rightarrow> Inl e
            | Inr out' \<Rightarrow> loop_c A B cnt r (c + 1) hi out'))"
    using le by (subst loop_c.simps) simp
  then show ?case
    using Suc.prems Suc.hyps(1)[OF d] loop_innerTile_error[of 0 cnt A B r c "Num 0"]
      js_set2_error
    by (auto split: sum.splits)
qed

lemma loop_r_error:
  "cnt \<le> INNER_TILES \<Longrightarrow> loop_r A B cnt colRange r hi out = Inl e \<Longrightarrow> e = TypeError"
proof (induction "nat (hi + 1 - r)" arbitrary: r out)
  case 0
  then have "\<not> r \<le> hi"
    by simp
  then show ?case
    using "0.prems" by (simp add: loop_r.simps)
next
  case (Suc d)
  then have le: "r \<le> hi"
    by linarith
  have d: "d = nat (hi + 1 - (r + 1))"
    using Suc.hyps(2) by linarith
  have "loop_r A B cnt colRange r hi out =
      (case loop_c A B cnt r (fst colRange) (snd colRange) out of
         Inl e \<Rightarrow> Inl e
       | Inr out' \<Rightarrow> loop_r A B cnt colRange (r + 1) hi out')"
    using le by (subst loop_r.simps) simp
  then show ?case
    using Suc.prems Suc.hyps(1)[OF d] loop_c_error by (auto split: sum.splits)
qed

lemma tileContributionCount_le: "tileContributionCount s rt ct \<le> INNER_TILES"
  by (simp add: tileContributionCount_def Let_def INNER_TILES_eq)

lemma loop_colTile_error:
  "0 \<le> ct \<Longrightarrow> loop_colTile A B s rt rowRange ct out = Inl e \<Longrightarrow> e = TypeError"
proof (induction "nat (COL_TILES - ct)" arbitrary: ct out)
  case 0
  then have "\<not> ct < COL_TILES"
    by simp
  then show ?case
    using "0.prems" by (simp add: loop_colTile.simps)
next
  case (Suc d)
  then have lt: "ct < COL_TILES"
    by linarith
  have d: "d = nat (COL_TILES - (ct + 1))"
    using Suc.hyps(2) by linarith
  let ?colRange = "(ct * TILE_SIZE, min (ct * TILE_SIZE + TILE_SIZE - 1) (K - 1))"
  let ?cnt = "tileContributionCount s rt ct"
  have rg: "safe_range (getTileRange ct K) = Some ?colRange"
    using Suc.prems(1) lt by (intro safe_range_tile) (simp_all add: COL_TILES_eq K_def)
  have "loop_colTile A B s rt rowRange ct out =
      (if ?cnt \<le> 0 then loop_colTile A B s rt rowRange (ct + 1) out
       else
         (case loop_r A B ?cnt ?colRange (fst rowRange) (snd rowRange) out of
            Inl e \<Rightarrow> Inl e
          | Inr out' \<Rightarrow> loop_colTile A B s rt rowRange (ct + 1) out'))"
    using lt by (subst loop_colTile.simps) (simp add: rg Let_def)
  then show ?case
    using Suc.prems Suc.hyps(1)[OF d] loop_r_error[OF tileContributionCount_le]
    by (auto split: sum.splits if_splits)
qed

lemma loop_rowTile_error:
  "0 \<le> rt \<Longrightarrow> loop_rowTile A B s rt out = Inl e \<Longrightarrow> e = TypeError"
proof (induction "nat (ROW_TILES - rt)" arbitrary: rt out)
  case 0
  then have "\<not> rt < ROW_TILES"
    by simp
  then show ?case
    using "0.prems" by (simp add: loop_rowTile.simps)
next
  case (Suc d)
  then have lt: "rt < ROW_TILES"
    by linarith
  have d: "d = nat (ROW_TILES - (rt + 1))"
    using Suc.hyps(2) by linarith
  let ?rowRange = "(rt * TILE_SIZE, min (rt * TILE_SIZE + TILE_SIZE - 1) (M - 1))"
  have rg: "safe_range (getTileRange rt M) = Some ?rowRange"
    using Suc.prems(1) lt by (intro safe_range_tile) (simp_all add: ROW_TILES_eq M_def)
  have "loop_rowTile A B s rt out =
      (case loop_colTile A B s rt ?rowRange 0 out of
         Inl e \<Rightarrow> Inl e
       | Inr out' \<Rightarrow> loop_rowTile A B s (rt + 1) out')"
    using lt by (subst loop_rowTile.simps) (simp add: rg)
  then show ?case
    using Suc.prems Suc.hyps(1)[OF d] loop_colTile_error[of 0 A B s rt ?rowRange out]
    by (auto split: sum.splits)
qed

lemma buildPartialC_error: "buildPartialC A B s = Inl e \<Longrightarrow> e = TypeError"
  unfolding buildPartialC_def by (rule loop_rowTile_error[of 0]) simp_all

subsection \<open>The product at the last step\<close>

text \<open>
  C1, as amended. Let \<open>A\<close> (7 by 6) and \<open>B\<close> (6 by 9) be matrices of integers that are
  JavaScript numbers, such that in every output cell the absolute values of the six
  products \<open>A[r][n] * B[n][c]\<close> add up to at most \<open>2 ^ 53\<close>. Then the partial output
  materialized at the last step, \<open>buildPartialC A B (TOTAL_STEPS - 1)\<close>, is returned without
  error and equals the conventional product: it has 7 rows of 9 cells, and every cell
  \<open>(r, c)\<close> is defined and holds the sum of \<open>A[r][n] * B[n][c]\<close> over \<open>n\<close> in \<open>[0, N)\<close>.
\<close>

theorem buildPartialC_last_step_is_product:
  assumes "has_shape M N A" and "has_shape N K B"
    and "all_doubles A" and "all_doubles B" and "sums_exact A B"
  shows "buildPartialC A B (TOTAL_STEPS - 1) = Inr (direct_product A B) \<and>
    (\<exists>out. buildPartialC A B (TOTAL_STEPS - 1) = Inr out \<and> length out = nat M \<and>
       (\<forall>r < nat M. length (out ! r) = nat K \<and>
          (\<forall>c < nat K. out ! r ! c = Some (Num (\<Sum>n = 0..<nat N. A ! r ! n * B ! n ! c)))))"
  using buildPartialC_final[OF assms(1,2,5)] direct_product_cells[of A B] by simp

theorem buildPartialC_last_step_is_product_witness:
  "has_shape M N (replicate 7 [1, 2, 3, 4, 5, 6 :: int]) \<and>
   has_shape N K (replicate 6 [1, 0, 0, 0, 2, 0, 0, 0, - 1 :: int]) \<and>
   all_doubles (replicate 7 [1, 2, 3, 4, 5, 6]) \<and>
   all_doubles (replicate 6 [1, 0, 0, 0, 2, 0, 0, 0, - 1]) \<and>
   sums_exact (replicate 7 [1, 2, 3, 4, 5, 6]) (replicate 6 [1, 0, 0, 0, 2, 0, 0, 0, - 1]) \<and>
   buildPartialC (replicate 7 [1, 2, 3, 4, 5, 6]) (replicate 6 [1, 0, 0, 0, 2, 0, 0, 0, - 1])
       (TOTAL_STEPS - 1) =
     Inr (replicate 7 (map (\<lambda>v. Some (Num v)) [21, 0, 0, 0, 42, 0, 0, 0, - 21]))"
proof -
  let ?A = "replicate 7 [1, 2, 3, 4, 5, 6] :: int list list"
  let ?B = "replicate 6 [1, 0, 0, 0, 2, 0, 0, 0, - 1] :: int list list"
  have a: "has_shape M N ?A"
    by code_simp
  have b: "has_shape N K ?B"
    by code_simp
  have da: "all_doubles ?A"
    by code_simp
  have db: "all_doubles ?B"
    by code_simp
  have ex: "sums_exact ?A ?B"
    by code_simp
  have d: "direct_product ?A ?B =
      replicate 7 (map (\<lambda>v. Some (Num v)) [21, 0, 0, 0, 42, 0, 0, 0, - 21])"
    by code_simp
  show ?thesis
    using buildPartialC_last_step_is_product[OF a b da db ex] a b da db ex d by simp
qed

text \<open>
  C1 as stated, for any integer matrices, fails: with rows \<open>[2 ^ 27, 1, - 2 ^ 27, 0, 0, 0]\<close>
  of \<open>A\<close> against columns \<open>[2 ^ 27, 1, 2 ^ 27, 0, 0, 0]\<close> of \<open>B\<close> the running sum goes
  \<open>2 ^ 54\<close>, then \<open>2 ^ 54 + 1\<close> rounded back to \<open>2 ^ 54\<close>, then 0, so every cell of the
  output is 0 where the product is 1.
\<close>

theorem buildPartialC_rounds_large_sums:
  "has_shape M N (replicate 7 [2 ^ 27, 1, - (2 ^ 27), 0, 0, 0 :: int]) \<and>
   has_shape N K (map (replicate 9) [2 ^ 27, 1, 2 ^ 27, 0, 0, 0 :: int]) \<and>
   all_doubles (replicate 7 [2 ^ 27, 1, - (2 ^ 27), 0, 0, 0]) \<and>
   all_doubles (map (replicate 9) [2 ^ 27, 1, 2 ^ 27, 0, 0, 0]) \<and>
   buildPartialC (replicate 7 [2 ^ 27, 1, - (2 ^ 27), 0, 0, 0])
       (map (replicate 9) [2 ^ 27, 1, 2 ^ 27, 0, 0, 0]) (TOTAL_STEPS - 1) =
     Inr (replicate 7 (replicate 9 (Some (Num 0)))) \<and>
   direct_product (replicate 7 [2 ^ 27, 1, - (2 ^ 27), 0, 0, 0])
       (map (replicate 9) [2 ^ 27, 1, 2 ^ 27, 0, 0, 0]) =
     replicate 7 (replicate 9 (Some (Num 1)))"
  by code_simp

subsection \<open>The step decoder\<close>

lemma decodeStep_list:
  "map decodeStep [0..TOTAL_STEPS - 1] =
     [(row, col, inner). row \<leftarrow> [0..ROW_TILES - 1], col \<leftarrow> [0..COL_TILES - 1],
        inner \<leftarrow> [0..INNER_TILES - 1]]"
  by code_simp

lemma tile_triples_set:
  "set [(row, col, inner). row \<leftarrow> [0..ROW_TILES - 1], col \<leftarrow> [0..COL_TILES - 1],
        inner \<leftarrow> [0..INNER_TILES - 1]] =
   {0..<ROW_TILES} \<times> {0..<COL_TILES} \<times> {0..<INNER_TILES}"
proof -
  have "{0..n - 1} = {0..<n}" for n :: int
    by auto
  then show ?thesis
    by (simp add: image_Union[symmetric] Sigma_def image_image) blast
qed

lemma tile_triples_distinct:
  "distinct [(row, col, inner). row \<leftarrow> [0..ROW_TILES - 1], col \<leftarrow> [0..COL_TILES - 1],
        inner \<leftarrow> [0..INNER_TILES - 1]]"
  by code_simp

lemma decodeStep_bij:
  "bij_betw decodeStep {0..<TOTAL_STEPS}
     ({0..<ROW_TILES} \<times> {0..<COL_TILES} \<times> {0..<INNER_TILES})"
proof -
  have dom: "{0..<TOTAL_STEPS} = set [0..TOTAL_STEPS - 1]"
    by auto
  have "distinct (map decodeStep [0..TOTAL_STEPS - 1])"
    unfolding decodeStep_list by (rule tile_triples_distinct)
  then have "inj_on decodeStep (set [0..TOTAL_STEPS - 1])"
    by (simp add: distinct_map)
  moreover have "decodeStep ` set [0..TOTAL_STEPS - 1] =
      {0..<ROW_TILES} \<times> {0..<COL_TILES} \<times> {0..<INNER_TILES}"
    unfolding set_map[symmetric] decodeStep_list by (rule tile_triples_set)
  ultimately show ?thesis
    unfolding dom by (simp add: bij_betw_def)
qed

lemma decodeStep_encode:
  assumes "0 \<le> s" and "s < TOTAL_STEPS" and "decodeStep s = (row, col, inner)"
  shows "s = (row * COL_TILES + col) * INNER_TILES + inner"
proof -
  have "0 \<le> s div 2"
    using assms(1) by simp
  then have "decodeStep s = (s div 6, s div 2 mod 3, s mod 2)"
    using assms(1) by (simp add: decodeStep_def Let_def floor_div_def js_rem_nonneg
        INNER_TILES_eq COL_TILES_eq)
  then have "row = s div 6" "col = s div 2 mod 3" "inner = s mod 2"
    using assms(3) by simp_all
  moreover have "s = (s div 6 * 3 + s div 2 mod 3) * 2 + s mod 2"
    by presburger
  ultimately show ?thesis
    by (simp add: INNER_TILES_eq COL_TILES_eq)
qed

text \<open>
  C2. The step decoding is a bijection from \<open>[0, TOTAL_STEPS)\<close> onto the product of the
  row-tile, column-tile and inner-tile index ranges. Decoding the steps in ascending
  order lists every triple exactly once in lexicographic order, the inner tile varying
  fastest, then the column tile, then the row tile; equivalently, a step in range is
  \<open>(row * colTiles + col) * innerTiles + inner\<close> of its own triple.
\<close>

theorem decodeStep_bijection:
  "bij_betw decodeStep {0..<TOTAL_STEPS}
     ({0..<ROW_TILES} \<times> {0..<COL_TILES} \<times> {0..<INNER_TILES}) \<and>
   map decodeStep [0..TOTAL_STEPS - 1] =
     [(row, col, inner). row \<leftarrow> [0..ROW_TILES - 1], col \<leftarrow> [0..COL_TILES - 1],
        inner \<leftarrow> [0..INNER_TILES - 1]] \<and>
   (0 \<le> s \<and> s < TOTAL_STEPS \<and> decodeStep s = (row, col, inner) \<longrightarrow>
      s = (row * COL_TILES + col) * INNER_TILES + inner)"
  using decodeStep_bij decodeStep_list decodeStep_encode[of s row col inner] by blast

theorem decodeStep_bijection_witness:
  "(0::int) \<le> 7 \<and> 7 < TOTAL_STEPS \<and> decodeStep 7 = (1, 0, 1) \<and>
   (7::int) = (1 * COL_TILES + 0) * INNER_TILES + 1"
proof -
  have d: "decodeStep 7 = (1, 0, 1)"
    by code_simp
  have r: "(0::int) \<le> 7 \<and> 7 < TOTAL_STEPS"
    by (simp add: TOTAL_STEPS_eq)
  show ?thesis
    using decodeStep_bijection[of 7 1 0 1] d r by blast
qed

subsection \<open>The progress counter\<close>

text \<open>
  C3. The progress counter of an output tile is the clamp of
  \<open>s - (rt * colTiles + ct) * innerTiles + 1\<close> into \<open>[0, innerTiles]\<close>, at every step and
  every tile (in either order of the two bounds); it is a function of its three
  arguments alone.
\<close>

theorem tileContributionCount_clamp:
  "tileContributionCount s rt ct =
     max 0 (min INNER_TILES (s - (rt * COL_TILES + ct) * INNER_TILES + 1)) \<and>
   tileContributionCount s rt ct =
     min INNER_TILES (max 0 (s - (rt * COL_TILES + ct) * INNER_TILES + 1))"
  by (simp add: tileContributionCount_def Let_def INNER_TILES_eq)

text \<open>
  C4. For a fixed output tile the progress counter never decreases as the step grows; it
  is 0 at every step before the tile's first contribution step
  \<open>(rt * colTiles + ct) * innerTiles\<close>; it is \<open>innerTiles\<close> at the tile's last contribution
  step; and once it is \<open>innerTiles\<close> it is \<open>innerTiles\<close> at every later step. It always lies
  in \<open>[0, innerTiles]\<close>.
\<close>

theorem tileContributionCount_monotone:
  "(s \<le> s' \<longrightarrow> tileContributionCount s rt ct \<le> tileContributionCount s' rt ct) \<and>
   (s < (rt * COL_TILES + ct) * INNER_TILES \<longrightarrow> tileContributionCount s rt ct = 0) \<and>
   (tileContributionCount s rt ct = INNER_TILES \<and> s \<le> s' \<longrightarrow>
      tileContributionCount s' rt ct = INNER_TILES) \<and>
   tileContributionCount ((rt * COL_TILES + ct) * INNER_TILES + INNER_TILES - 1) rt ct =
     INNER_TILES \<and>
   0 \<le> tileContributionCount s rt ct \<and> tileContributionCount s rt ct \<le> INNER_TILES"
  by (auto simp: tileContributionCount_def Let_def INNER_TILES_eq)

theorem tileContributionCount_monotone_witness:
  "tileContributionCount 3 0 2 \<le> tileContributionCount 4 0 2 \<and>
   tileContributionCount 3 0 2 = 0 \<and> tileContributionCount 4 0 2 = 1 \<and>
   tileContributionCount 5 0 2 = INNER_TILES \<and> tileContributionCount 11 0 2 = INNER_TILES"
  using tileContributionCount_monotone[of 3 4 0 2] tileContributionCount_monotone[of 5 11 0 2]
  by (simp add: tileContributionCount_def Let_def INNER_TILES_eq COL_TILES_eq)

subsection \<open>Tile ranges\<close>

text \<open>
  C5, as amended. \<open>getTileRange\<close> validates nothing and returns for every tile index and
  every extent. For a tile index of magnitude below \<open>2 ^ 50\<close> and an extent of magnitude
  below \<open>2 ^ 53\<close>, where its arithmetic is exact, the range it returns is
  \<open>[tileIndex * tileSize, min (tileIndex * tileSize + tileSize - 1) (dimExtent - 1)]\<close>
  and its end is below the extent; on the indices the contract accepts
  (\<open>0 \<le> tileIndex\<close> and \<open>tileIndex * tileSize < dimExtent\<close>) this is the contract's range
  and it is not empty. For extent 7 and tile size 4, tile 0 is \<open>[0, 3]\<close> and tile 1 is
  \<open>[4, 6]\<close>.
\<close>

theorem getTileRange_valid_index:
  "(\<bar>t\<bar> < 2 ^ 50 \<and> \<bar>E\<bar> < 2 ^ 53 \<longrightarrow>
      getTileRange t E =
        (Num (t * TILE_SIZE), Num (min (t * TILE_SIZE + TILE_SIZE - 1) (E - 1))) \<and>
      min (t * TILE_SIZE + TILE_SIZE - 1) (E - 1) < E \<and>
      (0 \<le> t \<and> t * TILE_SIZE < E \<longrightarrow>
         tileRange_spec t E TILE_SIZE =
           Inr (t * TILE_SIZE, min (t * TILE_SIZE + TILE_SIZE - 1) (E - 1)) \<and>
         t * TILE_SIZE \<le> min (t * TILE_SIZE + TILE_SIZE - 1) (E - 1))) \<and>
   TILE_SIZE = 4 \<and> getTileRange 0 7 = (Num 0, Num 3) \<and> getTileRange 1 7 = (Num 4, Num 6)"
proof -
  have "getTileRange 0 7 = (Num 0, Num 3)" "getTileRange 1 7 = (Num 4, Num 6)"
    using getTileRange_exact[of 0 7] getTileRange_exact[of 1 7] by (simp_all add: TILE_SIZE_def)
  moreover have "getTileRange t E =
      (Num (t * TILE_SIZE), Num (min (t * TILE_SIZE + TILE_SIZE - 1) (E - 1)))"
    if "\<bar>t\<bar> < 2 ^ 50" "\<bar>E\<bar> < 2 ^ 53"
    using that by (rule getTileRange_exact)
  moreover have "tileRange_spec t E TILE_SIZE =
      Inr (t * TILE_SIZE, min (t * TILE_SIZE + TILE_SIZE - 1) (E - 1))"
    "t * TILE_SIZE \<le> min (t * TILE_SIZE + TILE_SIZE - 1) (E - 1)"
    if "0 \<le> t" "t * TILE_SIZE < E"
    using that by (simp_all add: tileRange_spec_def TILE_SIZE_def)
  moreover have "min (t * TILE_SIZE + TILE_SIZE - 1) (E - 1) < E"
    by simp
  ultimately show ?thesis
    by (simp add: TILE_SIZE_def)
qed

theorem getTileRange_valid_index_witness:
  "\<bar>1 :: int\<bar> < 2 ^ 50 \<and> \<bar>7 :: int\<bar> < 2 ^ 53 \<and> (0::int) \<le> 1 \<and> 1 * TILE_SIZE < 7 \<and>
   getTileRange 1 7 = (Num 4, Num 6) \<and> tileRange_spec 1 7 TILE_SIZE = Inr (4, 6) \<and>
   (6 :: int) < 7"
  using getTileRange_valid_index[of 1 7] by (simp add: TILE_SIZE_def)

text \<open>
  C5 as stated fails: where the contract demands an \<open>InvalidArgument\<close> failure, for a
  negative index and for an index past the extent, \<open>getTileRange\<close> returns a range. And
  at the valid index \<open>2 ^ 51\<close> of the extent \<open>2 ^ 53 + 4\<close> the end it returns is the
  extent itself, by rounding, not a value below it.
\<close>

theorem getTileRange_invalid_index_returns:
  "tileRange_spec (- 1) 7 TILE_SIZE = Inl InvalidArgument \<and>
   getTileRange (- 1) 7 = (Num (- 4), Num (- 1)) \<and>
   tileRange_spec 2 7 TILE_SIZE = Inl InvalidArgument \<and>
   getTileRange 2 7 = (Num 8, Num 6) \<and>
   is_double (2 ^ 51) \<and> is_double (2 ^ 53 + 4) \<and>
   tileRange_spec (2 ^ 51) (2 ^ 53 + 4) TILE_SIZE = Inr (2 ^ 53, 2 ^ 53 + 3) \<and>
   getTileRange (2 ^ 51) (2 ^ 53 + 4) = (Num (2 ^ 53), Num (2 ^ 53 + 4))"
  by code_simp

subsection \<open>The navigation controller\<close>



subsection \<open>The worked example\<close>

text \<open>
  C7. With \<open>M = 7\<close>, \<open>N = 6\<close>, \<open>K = 9\<close> and tile size 4 there are 2 row tiles, 2 inner tiles,
  3 column tiles and 12 steps; step 0 decodes to \<open>(0, 0, 0)\<close> and step 11 to \<open>(1, 2, 1)\<close>;
  and the output materialized at step 11 from the matrices of the example,
  \<open>buildMatrix M N 1\<close> and \<open>buildMatrix N K 3\<close>, is their full product, the matrix shown.
\<close>

theorem worked_example:
  "M = 7 \<and> N = 6 \<and> K = 9 \<and> TILE_SIZE = 4 \<and>
   ROW_TILES = 2 \<and> INNER_TILES = 2 \<and> COL_TILES = 3 \<and> TOTAL_STEPS = 12 \<and>
   decodeStep 0 = (0, 0, 0) \<and> decodeStep 11 = (1, 2, 1) \<and>
   buildPartialC (buildMatrix M N 1) (buildMatrix N K 3) 11 =
     Inr (direct_product (buildMatrix M N 1) (buildMatrix N K 3)) \<and>
   direct_product (buildMatrix M N 1) (buildMatrix N K 3) =
     map (map (\<lambda>v. Some (Num v)))
       [[134, 134, 161, 134, 134, 161, 134, 134, 161],
        [161, 188, 188, 161, 188, 188, 161, 188, 188],
        [134, 80, 188, 134, 80, 188, 134, 80, 188],
        [134, 134, 161, 134, 134, 161, 134, 134, 161],
        [161, 188, 188, 161, 188, 188, 161, 188, 188],
        [134, 80, 188, 134, 80, 188, 134, 80, 188],
        [134, 134, 161, 134, 134, 161, 134, 134, 161]]"
proof -
  have "decodeStep 0 = (0, 0, 0)" "decodeStep 11 = (1, 2, 1)"
    by (simp_all add: decodeStep_def Let_def js_rem_def floor_div_def INNER_TILES_eq COL_TILES_eq)
  moreover have a: "has_shape M N (buildMatrix M N 1)"
    by code_simp
  moreover have b: "has_shape N K (buildMatrix N K 3)"
    by code_simp
  moreover have ex: "sums_exact (buildMatrix M N 1) (buildMatrix N K 3)"
    by code_simp
  moreover have "direct_product (buildMatrix M N 1) (buildMatrix N K 3) =
      map (map (\<lambda>v. Some (Num v)))
       [[134, 134, 161, 134, 134, 161, 134, 134, 161],
        [161, 188, 188, 161, 188, 188, 161, 188, 188],
        [134, 80, 188, 134, 80, 188, 134, 80, 188],
        [134, 134, 161, 134, 134, 161, 134, 134, 161],
        [161, 188, 188, 161, 188, 188, 161, 188, 188],
        [134, 80, 188, 134, 80, 188, 134, 80, 188],
        [134, 134, 161, 134, 134, 161, 134, 134, 161]]"
    by code_simp
  moreover have "buildPartialC (buildMatrix M N 1) (buildMatrix N K 3) 11 =
      Inr (direct_product (buildMatrix M N 1) (buildMatrix N K 3))"
    using buildPartialC_final[OF a b ex] by (simp add: TOTAL_STEPS_eq)
  ultimately show ?thesis
    by (simp only: M_def N_def K_def TILE_SIZE_def ROW_TILES_eq INNER_TILES_eq COL_TILES_eq
        TOTAL_STEPS_eq simp_thms)
qed

subsection \<open>Stepping and autoplay\<close>

text \<open>
  C8. From a step \<open>s\<close> in \<open>[0, totalSteps)\<close>, next sets the step to \<open>(s + 1) mod totalSteps\<close>
  and previous sets it to \<open>(s - 1 + totalSteps) mod totalSteps\<close>, both again in range; with
  12 steps, next from step 11 gives step 0 and previous from step 0 gives step 11.
\<close>

theorem next_previous_wrap:
  "(0 \<le> step st \<and> step st < TOTAL_STEPS \<longrightarrow>
      step (nextStep st) = (step st + 1) mod TOTAL_STEPS \<and>
      step (prevStep st) = (step st - 1 + TOTAL_STEPS) mod TOTAL_STEPS \<and>
      0 \<le> step (nextStep st) \<and> step (nextStep st) < TOTAL_STEPS \<and>
      0 \<le> step (prevStep st) \<and> step (prevStep st) < TOTAL_STEPS) \<and>
   TOTAL_STEPS = 12 \<and>
   step (nextStep \<lparr>step = 11, isPlaying = p\<rparr>) = 0 \<and>
   step (prevStep \<lparr>step = 0, isPlaying = p\<rparr>) = 11"
proof -
  have "js_rem (step st + 1) TOTAL_STEPS = (step st + 1) mod TOTAL_STEPS"
    "js_rem (step st - 1 + TOTAL_STEPS) TOTAL_STEPS = (step st - 1 + TOTAL_STEPS) mod TOTAL_STEPS"
    if "0 \<le> step st" "step st < TOTAL_STEPS"
    using that by (simp_all add: js_rem_nonneg TOTAL_STEPS_eq)
  moreover have "js_rem (11 + 1) TOTAL_STEPS = 0" "js_rem (0 - 1 + TOTAL_STEPS) TOTAL_STEPS = 11"
    by (simp_all add: js_rem_def TOTAL_STEPS_eq)
  ultimately show ?thesis
    by (simp add: nextStep_def prevStep_def TOTAL_STEPS_eq)
qed

theorem next_previous_wrap_witness:
  "(0::int) \<le> 11 \<and> 11 < TOTAL_STEPS \<and>
   step (nextStep \<lparr>step = 11, isPlaying = True\<rparr>) = 0 \<and>
   step (prevStep \<lparr>step = 11, isPlaying = True\<rparr>) = 10 \<and>
   step (prevStep \<lparr>step = 0, isPlaying = False\<rparr>) = 11"
proof -
  let ?st = "\<lparr>step = 11, isPlaying = True\<rparr>"
  have h: "0 \<le> step ?st \<and> step ?st < TOTAL_STEPS"
    by (simp add: TOTAL_STEPS_eq)
  have "step (nextStep ?st) = (step ?st + 1) mod TOTAL_STEPS"
    "step (prevStep ?st) = (step ?st - 1 + TOTAL_STEPS) mod TOTAL_STEPS"
    "step (prevStep \<lparr>step = 0, isPlaying = False\<rparr>) = 11"
    using next_previous_wrap[of ?st False] h by blast+
  then show ?thesis
    by (simp add: TOTAL_STEPS_eq)
qed

lemma paused_ticks_idle:
  "\<not> isPlaying st \<Longrightarrow> TogglePlay \<notin> set es \<Longrightarrow>
     run es st = run (filter (\<lambda>e. e \<noteq> Tick) es) st \<and> \<not> isPlaying (run es st)"
proof (induction es arbitrary: st)
  case Nil
  then show ?case
    by simp
next
  case (Cons e es)
  have "\<not> isPlaying (dispatch e st)"
    using Cons.prems
    by (cases e) (simp_all add: prevStep_def nextStep_def reset_def sliderChange_def timerTick_def)
  moreover have "TogglePlay \<notin> set es"
    using Cons.prems by simp
  ultimately have ih: "run es (dispatch e st) = run (filter (\<lambda>e. e \<noteq> Tick) es) (dispatch e st)
      \<and> \<not> isPlaying (run es (dispatch e st))"
    by (rule Cons.IH)
  show ?case
  proof (cases "e = Tick")
    case True
    then have same: "dispatch e st = st"
      using Cons.prems by (simp add: timerTick_def)
    then have "run (e # es) st = run es st"
      by simp
    moreover have "filter (\<lambda>e. e \<noteq> Tick) (e # es) = filter (\<lambda>e. e \<noteq> Tick) es"
      using True by simp
    ultimately show ?thesis
      using ih same by metis
  next
    case False
    then have "filter (\<lambda>e. e \<noteq> Tick) (e # es) = e # filter (\<lambda>e. e \<noteq> Tick) es"
      by simp
    then show ?thesis
      using ih by (metis run.simps(2))
  qed
qed

text \<open>
  C9. From a playing state, the slider handler clears the autoplay flag and leaves the
  step at the sought value. After it no timer tick changes the state: any number of ticks
  leaves it as it is, and in any sequence of events without a play toggle the ticks can be
  dropped and the flag stays off. Before the seek, and again after play is toggled on, a
  tick does advance the step.
\<close>

theorem seek_cancels_autoplay:
  assumes "isPlaying st"
  shows "\<not> isPlaying (sliderChange v st) \<and> step (sliderChange v st) = v \<and>
     run (replicate n Tick) (sliderChange v st) = sliderChange v st \<and>
     (TogglePlay \<notin> set es \<longrightarrow>
        run es (sliderChange v st) = run (filter (\<lambda>e. e \<noteq> Tick) es) (sliderChange v st) \<and>
        \<not> isPlaying (run es (sliderChange v st))) \<and>
     step (run [Tick] st) = js_rem (step st + 1) TOTAL_STEPS \<and>
     step (run [TogglePlay, Tick] (sliderChange v st)) = js_rem (v + 1) TOTAL_STEPS"
proof -
  have np: "\<not> isPlaying (sliderChange v st)"
    by (simp add: sliderChange_def)
  have "TogglePlay \<notin> set (replicate n Tick)"
    by simp
  from paused_ticks_idle[OF np this]
  have "run (replicate n Tick) (sliderChange v st) = sliderChange v st"
    by simp
  moreover have "step (run [Tick] st) = js_rem (step st + 1) TOTAL_STEPS"
    using assms by (simp add: timerTick_def)
  moreover have "step (run [TogglePlay, Tick] (sliderChange v st)) = js_rem (v + 1) TOTAL_STEPS"
    by (simp add: sliderChange_def timerTick_def togglePlay_def)
  moreover have "step (sliderChange v st) = v"
    by (simp add: sliderChange_def)
  ultimately show ?thesis
    using np paused_ticks_idle[OF np, of es] by blast
qed

theorem seek_cancels_autoplay_witness:
  "isPlaying \<lparr>step = 3, isPlaying = True\<rparr> \<and>
   sliderChange 7 \<lparr>step = 3, isPlaying = True\<rparr> = \<lparr>step = 7, isPlaying = False\<rparr> \<and>
   run [Tick, Tick, Tick] (sliderChange 7 \<lparr>step = 3, isPlaying = True\<rparr>) =
     \<lparr>step = 7, isPlaying = False\<rparr> \<and>
   run [Tick, Next, Tick] (sliderChange 7 \<lparr>step = 3, isPlaying = True\<rparr>) =
     \<lparr>step = 8, isPlaying = False\<rparr> \<and>
   step (run [Tick] \<lparr>step = 3, isPlaying = True\<rparr>) = 4 \<and>
   step (run [TogglePlay, Tick] (sliderChange 7 \<lparr>step = 3, isPlaying = True\<rparr>)) = 8"
proof -
  let ?st = "\<lparr>step = 3, isPlaying = True\<rparr>"
  have p: "isPlaying ?st"
    by simp
  have s: "sliderChange 7 ?st = \<lparr>step = 7, isPlaying = False\<rparr>"
    by (simp add: sliderChange_def)
  have t: "TogglePlay \<notin> set [Tick, Next, Tick]"
    by simp
  have r: "js_rem 4 TOTAL_STEPS = 4" "js_rem 8 TOTAL_STEPS = 8"
    by (simp_all add: js_rem_def TOTAL_STEPS_eq)
  have "run (replicate 3 Tick) (sliderChange 7 ?st) = sliderChange 7 ?st"
    "run [Tick, Next, Tick] (sliderChange 7 ?st) =
       run (filter (\<lambda>e. e \<noteq> Tick) [Tick, Next, Tick]) (sliderChange 7 ?st)"
    "step (run [Tick] ?st) = js_rem (step ?st + 1) TOTAL_STEPS"
    "step (run [TogglePlay, Tick] (sliderChange 7 ?st)) = js_rem (7 + 1) TOTAL_STEPS"
    using seek_cancels_autoplay[OF p, of 7 3 "[Tick, Next, Tick]"] t by blast+
  then show ?thesis
    using p by (simp add: s r nextStep_def numeral_3_eq_3)
qed

subsection \<open>Tile ranges outside the dimension\<close>

text \<open>
  C10, as amended. \<open>getTileRange\<close> is total and validates nothing. For every tile index
  of magnitude below \<open>2 ^ 50\<close> and every extent of magnitude below \<open>2 ^ 53\<close>, where its
  arithmetic is exact, it returns \<open>[tileIndex * tileSize, min (tileIndex * tileSize +
  tileSize - 1) (maxSize - 1)]\<close>; there, when \<open>tileIndex * tileSize \<ge> maxSize\<close> the end is below
  the start, an empty range, and when the tile index is negative the start is negative.
\<close>

theorem getTileRange_total:
  "\<bar>t\<bar> < 2 ^ 50 \<and> \<bar>E\<bar> < 2 ^ 53 \<longrightarrow>
     getTileRange t E =
       (Num (t * TILE_SIZE), Num (min (t * TILE_SIZE + TILE_SIZE - 1) (E - 1))) \<and>
     (t * TILE_SIZE \<ge> E \<longrightarrow> min (t * TILE_SIZE + TILE_SIZE - 1) (E - 1) < t * TILE_SIZE) \<and>
     (t < 0 \<longrightarrow> t * TILE_SIZE < 0)"
  using getTileRange_exact[of t E] by (auto simp: TILE_SIZE_def)

theorem getTileRange_total_witness:
  "\<bar>2 :: int\<bar> < 2 ^ 50 \<and> \<bar>- 1 :: int\<bar> < 2 ^ 50 \<and> \<bar>7 :: int\<bar> < 2 ^ 53 \<and>
   (2::int) * TILE_SIZE \<ge> 7 \<and> getTileRange 2 7 = (Num 8, Num 6) \<and>
   (- 1 :: int) < 0 \<and> getTileRange (- 1) 7 = (Num (- 4), Num (- 1))"
  using getTileRange_total[of 2 7] getTileRange_total[of "- 1" 7]
  by (simp add: TILE_SIZE_def)

text \<open>
  C10 as stated, for every integer index and extent, fails: at the index \<open>2 ^ 51 + 1\<close>
  and the extent \<open>2 ^ 53 + 4\<close>, where \<open>tileIndex * tileSize \<ge> maxSize\<close>, both ends round to
  \<open>2 ^ 53 + 4\<close> and the range is not empty; and at the index \<open>- 2 ^ 52\<close> the end is
  \<open>- 2 ^ 54 + 4\<close>, not the \<open>- 2 ^ 54 + 3\<close> of the formula.
\<close>

theorem getTileRange_rounds_large_index:
  "is_double (2 ^ 51 + 1) \<and> is_double (2 ^ 53 + 4) \<and>
   (2 ^ 51 + 1) * TILE_SIZE \<ge> 2 ^ 53 + 4 \<and>
   getTileRange (2 ^ 51 + 1) (2 ^ 53 + 4) = (Num (2 ^ 53 + 4), Num (2 ^ 53 + 4)) \<and>
   is_double (- (2 ^ 52)) \<and>
   getTileRange (- (2 ^ 52)) 7 = (Num (- (2 ^ 54)), Num (- (2 ^ 54) + 4)) \<and>
   min (- (2 ^ 52) * TILE_SIZE + TILE_SIZE - 1) (7 - 1) = - (2 ^ 54) + 3"
  by code_simp

end
